theory Spec2Isabelle
  imports Complex_Main
begin

section \<open>The JavaScript Date operations used by the scheduler\<close>

text \<open>
  A \<open>Date\<close> is modelled by its time value: the number of milliseconds since
  1970-01-01T00:00 (a Thursday) on the wall clock of the local zone. The local zone is
  taken to have a fixed offset (no daylight saving), the representation the
  specification assumes (all instants normalised to one wall clock); all time values are
  taken inside the range where a \<open>Date\<close> is valid. The operations follow ECMA-262:
  \<open>Day\<close>, \<open>TimeWithinDay\<close>, \<open>WeekDay\<close>, \<open>HourFromTime\<close>, \<open>MinFromTime\<close>,
  \<open>DateFromTime\<close>, and the setters through \<open>MakeDay\<close>/\<open>MakeTime\<close>.
\<close>

definition msPerMinute :: int where
  "msPerMinute = 60000"

definition msPerHour :: int where
  "msPerHour = 3600000"

definition msPerDay :: int where
  "msPerDay = 86400000"

definition Day :: "int \<Rightarrow> int" where
  "Day t = t div msPerDay"

definition TimeWithinDay :: "int \<Rightarrow> int" where
  "TimeWithinDay t = t mod msPerDay"

text \<open>\<open>getDay\<close>: 0 is Sunday, 6 is Saturday; day 0 of the epoch is a Thursday.\<close>

definition getDay :: "int \<Rightarrow> int" where
  "getDay t = (Day t + 4) mod 7"

definition getHours :: "int \<Rightarrow> int" where
  "getHours t = TimeWithinDay t div msPerHour"

definition getMinutes :: "int \<Rightarrow> int" where
  "getMinutes t = (TimeWithinDay t div msPerMinute) mod 60"

text \<open>
  The day of the month (1..31) of a day number in the proleptic Gregorian calendar.
  The computation shifts the epoch to 0000-03-01 so that a leap day is the last day of
  its (shifted) year, splits into 400-year eras of 146097 days, and reads the month off
  the day of the shifted year.
\<close>

definition DateFromDay :: "int \<Rightarrow> int" where
  "DateFromDay d =
     (let z = d + 719468;
          doe = z mod 146097;
          yoe = (doe - doe div 1460 + doe div 36524 - doe div 146096) div 365;
          doy = doe - (365 * yoe + yoe div 4 - yoe div 100);
          mp = (5 * doy + 2) div 153
      in doy - (153 * mp + 2) div 5 + 1)"

definition getDate :: "int \<Rightarrow> int" where
  "getDate t = DateFromDay (Day t)"

text \<open>\<open>date.setHours(h, 0, 0, 0)\<close>: the same day, at \<open>h\<close>:00:00.000 (an hour outside
  0..23 rolls over into a neighbouring day, as in JavaScript).\<close>

definition setHours :: "int \<Rightarrow> int \<Rightarrow> int" where
  "setHours t h = Day t * msPerDay + h * msPerHour"

text \<open>\<open>date.setDate(d)\<close>: day \<open>d\<close> relative to the first of the current month, the
  time of day kept (a day beyond the month's end rolls over into the next month).\<close>

definition setDate :: "int \<Rightarrow> int \<Rightarrow> int" where
  "setDate t d = t + (d - getDate t) * msPerDay"

text \<open>\<open>date.setMinutes(m)\<close>: minute \<open>m\<close> of the current hour, seconds and
  milliseconds kept.\<close>

definition setMinutes :: "int \<Rightarrow> int \<Rightarrow> int" where
  "setMinutes t m = t + (m - getMinutes t) * msPerMinute"


section \<open>scheduler.ts\<close>

record 'a TimeInterval =
  start :: 'a
  end' :: 'a

definition WORK_DAY_START_HOUR :: int where
  "WORK_DAY_START_HOUR = 9"

definition WORK_DAY_END_HOUR :: int where
  "WORK_DAY_END_HOUR = 17"

definition BUFFER_MINUTES :: int where
  "BUFFER_MINUTES = 15"

definition isWithinWorkingHours :: "int \<Rightarrow> int \<Rightarrow> int \<Rightarrow> bool" where
  "isWithinWorkingHours date startHour endHour =
     (let day = getDay date; hour = getHours date
      in day \<ge> 1 \<and> day \<le> 5 \<and> hour \<ge> startHour \<and> hour < endHour)"

text \<open>
  The block the source writes twice (lines 62-69 and 77-80): set the trial time to
  \<open>workStartHour\<close>:00 of its day, then add 3 days if that day is a Friday, 2 if it is a
  Saturday, 1 otherwise.
\<close>

definition moveToNextWorkingDay :: "int \<Rightarrow> int \<Rightarrow> int" where
  "moveToNextWorkingDay currentTryTime workStartHour =
     (let t = setHours currentTryTime workStartHour
      in if getDay t = 5 then setDate t (getDate t + 3)
         else if getDay t = 6 then setDate t (getDate t + 2)
         else setDate t (getDate t + 1))"

text \<open>The end-of-day condition of line 73-75, on the potential end time.\<close>

definition endsOutsideWorkingDay :: "int \<Rightarrow> int \<Rightarrow> int \<Rightarrow> bool" where
  "endsOutsideWorkingDay potentialEndTime currentTryTime workEndHour =
     (getHours potentialEndTime > workEndHour \<or>
      (getHours potentialEndTime = workEndHour \<and> getMinutes potentialEndTime > 0) \<or>
      getDate potentialEndTime \<noteq> getDate currentTryTime)"

text \<open>The condition of line 89: the busy slot overlaps the trial slot.\<close>

definition conflicts :: "int \<Rightarrow> int \<Rightarrow> int TimeInterval \<Rightarrow> bool" where
  "conflicts currentTryTime potentialEndTime busySlot =
     (start busySlot < potentialEndTime \<and> end' busySlot > currentTryTime)"

text \<open>
  One pass through the body of the \<open>while\<close> loop at trial time \<open>currentTryTime\<close>:
  either the function returns (\<open>Return\<close>, with \<open>None\<close> for \<open>null\<close>), or the loop
  continues with a new trial time (\<open>Continue\<close>). The inner \<open>for\<close> loop stops at the
  first busy slot that conflicts, which is \<open>find\<close>.
\<close>

datatype step = Return "int TimeInterval option" | Continue int

definition loop_body ::
  "int \<Rightarrow> int TimeInterval list \<Rightarrow> int \<Rightarrow> int \<Rightarrow> int \<Rightarrow> int \<Rightarrow> int \<Rightarrow> step" where
  "loop_body durationMinutes busyTimes workStartHour workEndHour bufferMinutes
       searchEndDate currentTryTime =
     (let totalDurationMs = (durationMinutes + bufferMinutes) * 60000;
          potentialEndTime = currentTryTime + totalDurationMs
      in if potentialEndTime > searchEndDate then Return None
         else if \<not> isWithinWorkingHours currentTryTime workStartHour workEndHour
           then Continue (moveToNextWorkingDay currentTryTime workStartHour)
         else if endsOutsideWorkingDay potentialEndTime currentTryTime workEndHour
           then Continue (moveToNextWorkingDay currentTryTime workStartHour)
         else (case find (conflicts currentTryTime potentialEndTime) busyTimes of
                 Some busySlot \<Rightarrow> Continue (end' busySlot)
               | None \<Rightarrow>
                   Return (Some \<lparr>start = currentTryTime,
                                 end' = currentTryTime + durationMinutes * 60000\<rparr>)))"

text \<open>
  The \<open>while\<close> loop. It need not terminate for every argument (a negative
  \<open>workStartHour\<close> can send the trial time backwards), so the result is an option:
  \<open>None\<close> is a run that never returns, \<open>Some None\<close> is \<open>null\<close>, and
  \<open>Some (Some slot)\<close> is a slot.
\<close>

partial_function (option) while_loop ::
  "int \<Rightarrow> int TimeInterval list \<Rightarrow> int \<Rightarrow> int \<Rightarrow> int \<Rightarrow> int \<Rightarrow> int
     \<Rightarrow> int TimeInterval option option" where
  "while_loop durationMinutes busyTimes workStartHour workEndHour bufferMinutes
       searchEndDate currentTryTime =
     (if currentTryTime < searchEndDate
      then (case loop_body durationMinutes busyTimes workStartHour workEndHour
                    bufferMinutes searchEndDate currentTryTime of
              Return r \<Rightarrow> Some r
            | Continue t \<Rightarrow>
                while_loop durationMinutes busyTimes workStartHour workEndHour
                  bufferMinutes searchEndDate t)
      else Some None)"

definition findEarliestFitSlot ::
  "int \<Rightarrow> int \<Rightarrow> int TimeInterval list \<Rightarrow> int \<Rightarrow> int \<Rightarrow> int \<Rightarrow> int
     \<Rightarrow> int TimeInterval option option" where
  "findEarliestFitSlot searchStartTime durationMinutes busyTimes workStartHour
       workEndHour bufferMinutes searchEndDate =
     while_loop durationMinutes busyTimes workStartHour workEndHour bufferMinutes
       searchEndDate searchStartTime"


declare while_loop.simps [code]

text \<open>
  The same loop with a counter, to speak about the number of passes through the body:
  with fuel \<open>n\<close> the result is \<open>Some (r, k)\<close> when the loop returns \<open>r\<close> after
  \<open>k \<le> n\<close> passes, and \<open>None\<close> when \<open>n\<close> passes are not enough.
\<close>

fun loop_iterations ::
  "nat \<Rightarrow> int \<Rightarrow> int TimeInterval list \<Rightarrow> int \<Rightarrow> int \<Rightarrow> int \<Rightarrow> int \<Rightarrow> int
     \<Rightarrow> (int TimeInterval option \<times> nat) option" where
  "loop_iterations 0 d b sh eh buf E t = (if t < E then None else Some (None, 0))"
| "loop_iterations (Suc n) d b sh eh buf E t =
     (if t < E
      then (case loop_body d b sh eh buf E t of
              Return r \<Rightarrow> Some (r, 1)
            | Continue t' \<Rightarrow>
                map_option (\<lambda>(r, k). (r, Suc k)) (loop_iterations n d b sh eh buf E t'))
      else Some (None, 0))"

text \<open>The busy intervals that end after \<open>t\<close>, and the calendar days that the
  half-open range from \<open>t\<close> to the search end meets.\<close>

definition pendingBusy :: "int TimeInterval list \<Rightarrow> int \<Rightarrow> nat" where
  "pendingBusy busyTimes t = length (filter (\<lambda>x. t < end' x) busyTimes)"

definition calendarDays :: "int \<Rightarrow> int \<Rightarrow> nat" where
  "calendarDays t searchEndDate =
     (if t < searchEndDate then nat (Day (searchEndDate - 1) - Day t + 1) else 0)"


section \<open>server.ts: validation and the scheduling loop of \<open>schedule_tasks\<close>\<close>

record Subtask =
  subtask :: string
  duration_minutes :: int



definition SCHEDULING_START_OFFSET_DAYS :: int where
  "SCHEDULING_START_OFFSET_DAYS = 1"

definition SCHEDULING_WINDOW_DAYS :: int where
  "SCHEDULING_WINDOW_DAYS = 7"

definition SCHEDULING_WORK_DAY_START_HOUR :: int where
  "SCHEDULING_WORK_DAY_START_HOUR = 9"

definition SCHEDULING_WORK_DAY_END_HOUR :: int where
  "SCHEDULING_WORK_DAY_END_HOUR = 17"

definition SCHEDULING_BUFFER_MINUTES :: int where
  "SCHEDULING_BUFFER_MINUTES = 15"

text \<open>
  \<open>Date\<close> objects are mutable and the loop shares them, so the loop runs on a store:
  a reference is an index into the list of the time values of the objects allocated so
  far, and \<open>new Date\<close> appends to it. An interval of \<open>busyTimes\<close> holds two
  references.
\<close>

type_synonym ref = nat

definition newDate :: "int list \<Rightarrow> int \<Rightarrow> int list \<times> ref" where
  "newDate h v = (h @ [v], length h)"

definition getTime :: "int list \<Rightarrow> ref \<Rightarrow> int" where
  "getTime h r = h ! r"

definition valueOf :: "int list \<Rightarrow> ref TimeInterval \<Rightarrow> int TimeInterval" where
  "valueOf h b = \<lparr>start = getTime h (start b), end' = getTime h (end' b)\<rparr>"

text \<open>
  \<open>createCalendarEvent\<close> is an external call: it is a parameter of the loop, a function
  of the state of the outside world and of the title, start and end it is given, which
  either throws (\<open>CalendarError\<close>) or returns the event's URL (or \<open>null\<close>).
\<close>

datatype commit_result = CalendarError | EventUrl "string option"

text \<open>
  The loop keeps the names of the events it scheduled, not their times. The \<open>ledger\<close>
  field is not a variable of the program: it records, for each pass of the loop, what
  became of the request, with the slot that \<open>findEarliestFitSlot\<close> returned and that
  was handed to \<open>createCalendarEvent\<close>.
\<close>

datatype outcome = Placed "int TimeInterval" | CalendarApiError "int TimeInterval" | NoSlotFound

record 'w state =
  heap :: "int list"
  busyTimes :: "ref TimeInterval list"
  nextAvailableStartTime :: ref
  scheduledCount :: nat
  scheduledEvents :: "(string \<times> string option) list"
  unscheduledSubtasks :: "string list"
  world :: 'w
  ledger :: "outcome list"

text \<open>Lines 249-256: the search window, from the current time.\<close>

definition searchRangeStart :: "int \<Rightarrow> int" where
  "searchRangeStart now =
     setHours (setDate now (getDate now + SCHEDULING_START_OFFSET_DAYS))
       SCHEDULING_WORK_DAY_START_HOUR"

definition searchRangeEnd :: "int \<Rightarrow> int" where
  "searchRangeEnd now =
     setHours (setDate (searchRangeStart now)
                 (getDate (searchRangeStart now) + SCHEDULING_WINDOW_DAYS))
       SCHEDULING_WORK_DAY_END_HOUR"

text \<open>Lines 264-269: two new \<open>Date\<close> objects for each interval of the free/busy
  response, and a copy of the start of the window for the cursor.\<close>

fun allocBusy :: "int list \<Rightarrow> int TimeInterval list \<Rightarrow> int list \<times> ref TimeInterval list" where
  "allocBusy h [] = (h, [])"
| "allocBusy h (b # bs) =
     (let (h1, s) = newDate h (start b);
          (h2, e) = newDate h1 (end' b);
          (h3, rest) = allocBusy h2 bs
      in (h3, \<lparr>start = s, end' = e\<rparr> # rest))"

definition initial_state :: "int \<Rightarrow> int TimeInterval list \<Rightarrow> 'w \<Rightarrow> 'w state" where
  "initial_state rangeStart busy w =
     (let (h1, bs) = allocBusy [] busy;
          (h2, c) = newDate h1 rangeStart
      in \<lparr>heap = h2, busyTimes = bs, nextAvailableStartTime = c, scheduledCount = 0,
          scheduledEvents = [], unscheduledSubtasks = [], world = w, ledger = []\<rparr>)"

text \<open>
  One pass of the \<open>for\<close> loop of lines 271-304. The slot's \<open>start\<close> is the
  finder's own trial-time object and \<open>busySlotEnd\<close> is a new object; after a success
  the cursor variable refers to that same \<open>busySlotEnd\<close> object which was pushed into
  \<open>busyTimes\<close>. After a calendar error the cursor object is changed in place by
  \<open>setMinutes\<close>. \<open>Array.prototype.sort\<close> is stable, as \<open>sort_key\<close> is.
\<close>

definition schedule_iteration ::
  "('w \<Rightarrow> string \<Rightarrow> int \<Rightarrow> int \<Rightarrow> commit_result \<times> 'w) \<Rightarrow> int \<Rightarrow> 'w state \<Rightarrow> Subtask
     \<Rightarrow> 'w state option" where
  "schedule_iteration createCalendarEvent rangeEnd s st =
     (case findEarliestFitSlot (getTime (heap s) (nextAvailableStartTime s))
             (duration_minutes st) (map (valueOf (heap s)) (busyTimes s))
             SCHEDULING_WORK_DAY_START_HOUR SCHEDULING_WORK_DAY_END_HOUR
             SCHEDULING_BUFFER_MINUTES rangeEnd of
        None \<Rightarrow> None
      | Some None \<Rightarrow>
          Some (s\<lparr>unscheduledSubtasks := unscheduledSubtasks s @ [subtask st @ '' (No slot found)''],
                  ledger := ledger s @ [NoSlotFound]\<rparr>)
      | Some (Some slot) \<Rightarrow>
          (case createCalendarEvent (world s) (subtask st) (start slot) (end' slot) of
             (EventUrl eventUrl, w) \<Rightarrow>
               (let (h1, slotStart) = newDate (heap s) (start slot);
                    (h2, busySlotEnd) =
                       newDate h1 (end' slot + SCHEDULING_BUFFER_MINUTES * 60000);
                    pushed = busyTimes s @ [\<lparr>start = slotStart, end' = busySlotEnd\<rparr>]
                in Some (s\<lparr>heap := h2,
                           busyTimes := sort_key (\<lambda>b. getTime h2 (start b)) pushed,
                           nextAvailableStartTime := busySlotEnd,
                           scheduledCount := scheduledCount s + 1,
                           scheduledEvents := scheduledEvents s @ [(subtask st, eventUrl)],
                           world := w,
                           ledger := ledger s @ [Placed slot]\<rparr>))
           | (CalendarError, w) \<Rightarrow>
               (let c = nextAvailableStartTime s;
                    h = heap s
                in Some (s\<lparr>heap := h[c := setMinutes (getTime h c) (getMinutes (getTime h c) + 1)],
                           unscheduledSubtasks :=
                             unscheduledSubtasks s @ [subtask st @ '' (Calendar API error)''],
                           world := w,
                           ledger := ledger s @ [CalendarApiError slot]\<rparr>))))"

fun schedule_loop ::
  "('w \<Rightarrow> string \<Rightarrow> int \<Rightarrow> int \<Rightarrow> commit_result \<times> 'w) \<Rightarrow> int \<Rightarrow> 'w state \<Rightarrow> Subtask list
     \<Rightarrow> 'w state option" where
  "schedule_loop createCalendarEvent rangeEnd s [] = Some s"
| "schedule_loop createCalendarEvent rangeEnd s (st # subtasks) =
     (case schedule_iteration createCalendarEvent rangeEnd s st of
        None \<Rightarrow> None
      | Some s' \<Rightarrow> schedule_loop createCalendarEvent rangeEnd s' subtasks)"

text \<open>Lines 249-304 together, from the current time, the free/busy response, the
  outside world and the validated subtasks.\<close>

definition schedule_tasks ::
  "('w \<Rightarrow> string \<Rightarrow> int \<Rightarrow> int \<Rightarrow> commit_result \<times> 'w) \<Rightarrow> int \<Rightarrow> int TimeInterval list \<Rightarrow> 'w
     \<Rightarrow> Subtask list \<Rightarrow> 'w state option" where
  "schedule_tasks createCalendarEvent now busy w subtasks =
     schedule_loop createCalendarEvent (searchRangeEnd now)
       (initial_state (searchRangeStart now) busy w) subtasks"

text \<open>Readings of a state: the value of the cursor, the values of the busy set, the
  slots placed so far, and the slot of an outcome (the finder's result in that pass).\<close>

definition cursor :: "'w state \<Rightarrow> int" where
  "cursor s = getTime (heap s) (nextAvailableStartTime s)"

definition busyValues :: "'w state \<Rightarrow> int TimeInterval list" where
  "busyValues s = map (valueOf (heap s)) (busyTimes s)"

fun placedOf :: "outcome list \<Rightarrow> int TimeInterval list" where
  "placedOf [] = []"
| "placedOf (Placed slot # es) = slot # placedOf es"
| "placedOf (e # es) = placedOf es"

fun slotOf :: "outcome \<Rightarrow> int TimeInterval option" where
  "slotOf (Placed slot) = Some slot"
| "slotOf (CalendarApiError slot) = Some slot"
| "slotOf NoSlotFound = None"

text \<open>The half-open overlap of the specification, and a placed slot extended by the
  buffer.\<close>

definition overlaps :: "int TimeInterval \<Rightarrow> int TimeInterval \<Rightarrow> bool" where
  "overlaps a b = (start a < end' b \<and> start b < end' a)"

definition withBuffer :: "int TimeInterval \<Rightarrow> int TimeInterval" where
  "withBuffer slot = \<lparr>start = start slot, end' = end' slot + SCHEDULING_BUFFER_MINUTES * 60000\<rparr>"

fun pairwiseDisjoint :: "int TimeInterval list \<Rightarrow> bool" where
  "pairwiseDisjoint [] = True"
| "pairwiseDisjoint (p # ps) = ((\<forall>q \<in> set ps. \<not> overlaps p q) \<and> pairwiseDisjoint ps)"

text \<open>Two stand-ins for the calendar service, for running the loop on examples: one
  that always creates the event, and one that fails on its \<open>n\<close>-th call (counting
  from 0); the world is the number of calls made.\<close>

definition calendarAlwaysCreates :: "nat \<Rightarrow> string \<Rightarrow> int \<Rightarrow> int \<Rightarrow> commit_result \<times> nat" where
  "calendarAlwaysCreates w title s e = (EventUrl (Some ''url''), Suc w)"

definition calendarFailsAt :: "nat \<Rightarrow> nat \<Rightarrow> string \<Rightarrow> int \<Rightarrow> int \<Rightarrow> commit_result \<times> nat" where
  "calendarFailsAt n w title s e =
     (if w = n then (CalendarError, Suc w) else (EventUrl (Some ''url''), Suc w))"


text \<open>
  What the loop keeps true, used for the proof that placed slots do not overlap. The
  references of a state are allocated, and no interval of \<open>busyTimes\<close> has the
  cursor's object as its start. An interval \<open>q\<close> is covered when some interval of
  \<open>busyTimes\<close> starts where \<open>q\<close> starts and ends no earlier than \<open>q\<close> ends.
\<close>

definition wellFormed :: "'w state \<Rightarrow> bool" where
  "wellFormed s =
     (nextAvailableStartTime s < length (heap s) \<and>
      (\<forall>b \<in> set (busyTimes s).
          start b < length (heap s) \<and> end' b < length (heap s) \<and>
          start b \<noteq> nextAvailableStartTime s))"

definition covered :: "'w state \<Rightarrow> int TimeInterval \<Rightarrow> bool" where
  "covered s q =
     (\<exists>b \<in> set (busyTimes s).
         getTime (heap s) (start b) = start q \<and> end' q \<le> getTime (heap s) (end' b))"

definition placedWithBuffer :: "'w state \<Rightarrow> int TimeInterval list" where
  "placedWithBuffer s = map withBuffer (placedOf (ledger s))"

definition nonOverlapInv :: "int TimeInterval list \<Rightarrow> 'w state \<Rightarrow> bool" where
  "nonOverlapInv busy0 s =
     (wellFormed s \<and>
      (\<forall>q \<in> set busy0 \<union> set (placedWithBuffer s). covered s q) \<and>
      pairwiseDisjoint (placedWithBuffer s) \<and>
      (\<forall>p \<in> set (placedWithBuffer s). \<forall>b \<in> set busy0. \<not> overlaps p b))"

text \<open>Instants for examples: \<open>instant d h m\<close> is \<open>h\<close>:\<open>m\<close> on day number \<open>d\<close>. Day
  20458 is Monday 2026-01-05, day 20459 the Tuesday after it.\<close>

definition instant :: "int \<Rightarrow> int \<Rightarrow> int \<Rightarrow> int" where
  "instant d h m = d * msPerDay + h * msPerHour + m * msPerMinute"


section \<open>The finder's loop\<close>

subsection \<open>The loop and the counted loop agree\<close>

lemma while_loop_iterations:
  assumes "while_loop d b sh eh buf E t = Some r"
  shows "\<exists>n k. loop_iterations n d b sh eh buf E t = Some (r, k)"
proof (rule while_loop.raw_induct
    [where P = "\<lambda>d b sh eh buf E t r. \<exists>n k. loop_iterations n d b sh eh buf E t = Some (r, k)",
      OF _ assms])
  fix f :: "int \<Rightarrow> int TimeInterval list \<Rightarrow> int \<Rightarrow> int \<Rightarrow> int \<Rightarrow> int \<Rightarrow> int
     \<Rightarrow> int TimeInterval option option"
  fix d b sh eh buf E t r
  assume IH: "\<And>d b sh eh buf E t r. f d b sh eh buf E t = Some r
      \<Longrightarrow> \<exists>n k. loop_iterations n d b sh eh buf E t = Some (r, k)"
  assume eq: "(if t < E
      then (case loop_body d b sh eh buf E t of
              Return r \<Rightarrow> Some r
            | Continue u \<Rightarrow> f d b sh eh buf E u)
      else Some None) = Some r"
  show "\<exists>n k. loop_iterations n d b sh eh buf E t = Some (r, k)"
  proof (cases "t < E")
    case False
    with eq have "loop_iterations 0 d b sh eh buf E t = Some (r, 0)" by simp
    then show ?thesis by blast
  next
    case True
    show ?thesis
    proof (cases "loop_body d b sh eh buf E t")
      case (Return r')
      with True eq have "loop_iterations (Suc 0) d b sh eh buf E t = Some (r, 1)" by simp
      then show ?thesis by blast
    next
      case (Continue t')
      with True eq have "f d b sh eh buf E t' = Some r" by simp
      from IH[OF this] obtain n k where "loop_iterations n d b sh eh buf E t' = Some (r, k)"
        by blast
      with True Continue have "loop_iterations (Suc n) d b sh eh buf E t = Some (r, Suc k)"
        by simp
      then show ?thesis by blast
    qed
  qed
qed

lemma iterations_while_loop:
  "loop_iterations n d b sh eh buf E t = Some (r, k) \<Longrightarrow> while_loop d b sh eh buf E t = Some r"
proof (induction n arbitrary: t k)
  case 0
  then show ?case by (subst while_loop.simps) (simp split: if_splits)
next
  case (Suc n)
  show ?case
  proof (cases "t < E")
    case False
    with Suc.prems show ?thesis by (subst while_loop.simps) simp
  next
    case True
    show ?thesis
    proof (cases "loop_body d b sh eh buf E t")
      case (Return r')
      with True Suc.prems show ?thesis by (subst while_loop.simps) simp
    next
      case (Continue t')
      with True Suc.prems obtain k' where "loop_iterations n d b sh eh buf E t' = Some (r, k')"
        by auto
      from Suc.IH[OF this] True Continue show ?thesis by (subst while_loop.simps) simp
    qed
  qed
qed

text \<open>A property kept by every continuing pass holds where the loop returns.\<close>

lemma loop_iterations_invariant:
  assumes "loop_iterations n d b sh eh buf E t = Some (r, k)"
    and "I t"
    and "\<And>u u'. I u \<Longrightarrow> u < E \<Longrightarrow> loop_body d b sh eh buf E u = Continue u' \<Longrightarrow> I u'"
  shows "\<exists>u. I u \<and> (if u < E then loop_body d b sh eh buf E u = Return r else r = None)"
  using assms(1,2)
proof (induction n arbitrary: t k)
  case 0
  then show ?case by (auto split: if_splits)
next
  case (Suc n)
  show ?case
  proof (cases "t < E")
    case False
    with Suc.prems show ?thesis by auto
  next
    case True
    show ?thesis
    proof (cases "loop_body d b sh eh buf E t")
      case (Return r')
      with True Suc.prems show ?thesis by auto
    next
      case (Continue t')
      with True Suc.prems obtain k' where "loop_iterations n d b sh eh buf E t' = Some (r, k')"
        by auto
      moreover from assms(3)[OF Suc.prems(2) True Continue] have "I t'" .
      ultimately show ?thesis by (rule Suc.IH)
    qed
  qed
qed

lemma findEarliestFitSlot_slot:
  assumes "findEarliestFitSlot t0 d b sh eh buf E = Some (Some slot)"
    and "I t0"
    and "\<And>u u'. I u \<Longrightarrow> u < E \<Longrightarrow> loop_body d b sh eh buf E u = Continue u' \<Longrightarrow> I u'"
  shows "\<exists>u. I u \<and> u < E \<and> loop_body d b sh eh buf E u = Return (Some slot)"
proof -
  from assms(1) obtain n k where run: "loop_iterations n d b sh eh buf E t0 = Some (Some slot, k)"
    unfolding findEarliestFitSlot_def using while_loop_iterations by blast
  have "\<exists>u. I u \<and> (if u < E then loop_body d b sh eh buf E u = Return (Some slot)
                      else Some slot = None)"
    by (rule loop_iterations_invariant[where I = I, OF run assms(2)]) (rule assms(3))
  then show ?thesis by (auto split: if_splits)
qed

subsection \<open>Dates\<close>

text \<open>The calendar on known dates: 1970-01-01 (a Thursday), 1970-02-28, 1970-03-01,
  1972-02-29, 2000-02-29, 2000-03-01, 2026-01-05 (a Monday) and 2026-02-05.\<close>

lemma DateFromDay_known_dates:
  "map DateFromDay [0, 58, 59, 789, 11016, 11017, 20458, 20489] = [1, 28, 1, 29, 29, 1, 5, 5]"
  "getDay 0 = 4" "getDay (instant 20458 0 0) = 1"
  by code_simp+

lemma setDate_add: "setDate t (getDate t + k) = t + k * msPerDay"
  by (simp add: setDate_def)

lemma setMinutes_next: "setMinutes t (getMinutes t + 1) = t + 60000"
  by (simp add: setMinutes_def msPerMinute_def)

lemma Day_bounds: "Day t * msPerDay \<le> t" "t < Day t * msPerDay + msPerDay"
  by (simp_all add: Day_def msPerDay_def)

lemma Day_mono: "t \<le> u \<Longrightarrow> Day t \<le> Day u"
  by (simp add: Day_def msPerDay_def zdiv_mono1)

lemma moveToNextWorkingDay_cases:
  "\<exists>k\<in>{1, 2, 3}. moveToNextWorkingDay t sh = Day t * msPerDay + sh * msPerHour + k * msPerDay"
  by (simp add: moveToNextWorkingDay_def Let_def setDate_add setHours_def)

lemma moveToNextWorkingDay_later:
  assumes "0 \<le> sh"
  shows "(Day t + 1) * msPerDay \<le> moveToNextWorkingDay t sh"
proof -
  from moveToNextWorkingDay_cases[of t sh] obtain k where k: "k \<in> {1, 2, 3}"
    and eq: "moveToNextWorkingDay t sh = Day t * msPerDay + sh * msPerHour + k * msPerDay"
    by blast
  from assms have "0 \<le> sh * msPerHour" by (simp add: msPerHour_def)
  moreover from k have "msPerDay \<le> k * msPerDay" by (auto simp: msPerDay_def)
  ultimately show ?thesis using eq by (simp add: algebra_simps)
qed

lemma moveToNextWorkingDay_gt:
  "0 \<le> sh \<Longrightarrow> t < moveToNextWorkingDay t sh"
  using moveToNextWorkingDay_later[of sh t] Day_bounds(2)[of t] by (simp add: algebra_simps)

lemma moveToNextWorkingDay_Day:
  assumes "0 \<le> sh"
  shows "Day t + 1 \<le> Day (moveToNextWorkingDay t sh)"
proof -
  have "Day ((Day t + 1) * msPerDay) \<le> Day (moveToNextWorkingDay t sh)"
    by (rule Day_mono) (rule moveToNextWorkingDay_later[OF assms])
  moreover have "Day ((Day t + 1) * msPerDay) = Day t + 1"
    by (simp add: Day_def msPerDay_def)
  ultimately show ?thesis by simp
qed

subsection \<open>One pass of the body\<close>

lemma loop_body_Continue:
  assumes "loop_body d b sh eh buf E t = Continue u"
  shows "u = moveToNextWorkingDay t sh \<or> (\<exists>x \<in> set b. u = end' x \<and> t < end' x)"
  using assms
  by (auto simp: loop_body_def Let_def conflicts_def find_Some_iff
      split: if_splits option.splits)

lemma loop_body_Continue_gt:
  "0 \<le> sh \<Longrightarrow> loop_body d b sh eh buf E t = Continue u \<Longrightarrow> t < u"
  using loop_body_Continue moveToNextWorkingDay_gt by blast

lemma loop_body_Return_slot:
  assumes "loop_body d b sh eh buf E t = Return (Some slot)"
  shows "slot = \<lparr>start = t, end' = t + d * 60000\<rparr>"
    and "t + (d + buf) * 60000 \<le> E"
    and "isWithinWorkingHours t sh eh"
    and "\<not> endsOutsideWorkingDay (t + (d + buf) * 60000) t eh"
    and "\<forall>x \<in> set b. \<not> conflicts t (t + (d + buf) * 60000) x"
  using assms
  by (auto simp: loop_body_def Let_def find_None_iff split: if_splits option.splits)

subsection \<open>Termination and the number of passes\<close>

lemma filter_length_mono:
  "(\<And>x. x \<in> set xs \<Longrightarrow> P x \<Longrightarrow> Q x) \<Longrightarrow> length (filter P xs) \<le> length (filter Q xs)"
  by (induction xs) auto

lemma filter_length_less:
  assumes "\<And>x. x \<in> set xs \<Longrightarrow> P x \<Longrightarrow> Q x" and "y \<in> set xs" and "Q y" and "\<not> P y"
  shows "length (filter P xs) < length (filter Q xs)"
  using assms
proof (induction xs)
  case Nil
  then show ?case by simp
next
  case (Cons a xs)
  have le: "length (filter P xs) \<le> length (filter Q xs)"
    by (rule filter_length_mono) (simp add: Cons.prems(1))
  show ?case
  proof (cases "y = a")
    case True
    with Cons.prems le show ?thesis by simp
  next
    case False
    with Cons.prems have "y \<in> set xs" by simp
    with Cons have "length (filter P xs) < length (filter Q xs)" by simp
    with Cons.prems(1)[of a] show ?thesis by auto
  qed
qed

lemma pendingBusy_mono: "t \<le> u \<Longrightarrow> pendingBusy b u \<le> pendingBusy b t"
  unfolding pendingBusy_def by (rule filter_length_mono) simp

lemma pendingBusy_jump:
  "x \<in> set b \<Longrightarrow> t < end' x \<Longrightarrow> pendingBusy b (end' x) < pendingBusy b t"
  unfolding pendingBusy_def by (rule filter_length_less[where y = x]) simp_all

lemma pendingBusy_le: "pendingBusy b t \<le> length b"
  by (simp add: pendingBusy_def)

lemma calendarDays_pos: "t < E \<Longrightarrow> 1 \<le> calendarDays t E"
  using Day_mono[of t "E - 1"] by (simp add: calendarDays_def)

lemma calendarDays_mono: "t \<le> u \<Longrightarrow> calendarDays u E \<le> calendarDays t E"
  using Day_mono[of t u] Day_mono[of u "E - 1"] by (auto simp: calendarDays_def)

lemma calendarDays_next_day:
  "t < E \<Longrightarrow> Day t + 1 \<le> Day u \<Longrightarrow> Suc (calendarDays u E) \<le> calendarDays t E"
  using Day_mono[of t "E - 1"] Day_mono[of u "E - 1"] by (auto simp: calendarDays_def)

lemma loop_body_Continue_measure:
  assumes "0 \<le> sh" and "t < E" and "loop_body d b sh eh buf E t = Continue u"
  shows "Suc (pendingBusy b u + calendarDays u E) \<le> pendingBusy b t + calendarDays t E"
proof -
  from loop_body_Continue[OF assms(3)]
  consider "u = moveToNextWorkingDay t sh" | x where "x \<in> set b" "u = end' x" "t < end' x"
    by blast
  then show ?thesis
  proof cases
    case 1
    with assms(1) have "t \<le> u" "Day t + 1 \<le> Day u"
      using moveToNextWorkingDay_gt[of sh t] moveToNextWorkingDay_Day[of sh t] by simp_all
    with pendingBusy_mono[of t u b] calendarDays_next_day[of t E u] assms(2)
    show ?thesis by simp
  next
    case 2
    with pendingBusy_jump[of x b t] calendarDays_mono[of t u E]
    show ?thesis by simp
  qed
qed

lemma loop_iterations_bounded:
  assumes "0 \<le> sh"
  shows "\<exists>n r k. loop_iterations n d b sh eh buf E t = Some (r, k) \<and>
           k \<le> pendingBusy b t + calendarDays t E"
proof (induction "nat (E - t)" arbitrary: t rule: less_induct)
  case less
  show ?case
  proof (cases "t < E")
    case False
    then have "loop_iterations 0 d b sh eh buf E t = Some (None, 0)" by simp
    then show ?thesis by blast
  next
    case True
    show ?thesis
    proof (cases "loop_body d b sh eh buf E t")
      case (Return r)
      with True have "loop_iterations (Suc 0) d b sh eh buf E t = Some (r, 1)" by simp
      moreover from True have "1 \<le> pendingBusy b t + calendarDays t E"
        using calendarDays_pos[of t E] by simp
      ultimately show ?thesis by blast
    next
      case (Continue u)
      with assms have "t < u" by (rule loop_body_Continue_gt)
      with True have "nat (E - u) < nat (E - t)" by simp
      from less[OF this] obtain n r k
        where run: "loop_iterations n d b sh eh buf E u = Some (r, k)"
          and k: "k \<le> pendingBusy b u + calendarDays u E"
        by blast
      from run True Continue
      have "loop_iterations (Suc n) d b sh eh buf E t = Some (r, Suc k)" by simp
      moreover from k loop_body_Continue_measure[OF assms True Continue]
      have "Suc k \<le> pendingBusy b t + calendarDays t E" by simp
      ultimately show ?thesis by blast
    qed
  qed
qed

lemma findEarliestFitSlot_returns:
  assumes "0 \<le> sh"
  shows "\<exists>r. findEarliestFitSlot t d b sh eh buf E = Some r"
  using loop_iterations_bounded[OF assms, of d b eh buf E t] iterations_while_loop
  unfolding findEarliestFitSlot_def by blast

section \<open>Claims about \<open>findEarliestFitSlot\<close>\<close>

text \<open>
  C10. Whenever \<open>findEarliestFitSlot\<close> returns a slot, the slot starts on a weekday
  from Monday (1) to Friday (5), whatever hour arguments are passed: the test of the day
  in \<open>isWithinWorkingHours\<close> is fixed and takes no parameter.
\<close>

theorem findEarliestFitSlot_weekday_only:
  assumes "findEarliestFitSlot searchStartTime durationMinutes busy workStartHour
             workEndHour bufferMinutes searchEndDate = Some (Some slot)"
  shows "1 \<le> getDay (start slot) \<and> getDay (start slot) \<le> 5"
proof -
  from findEarliestFitSlot_slot[where I = "\<lambda>u. True", OF assms]
  obtain u where "loop_body durationMinutes busy workStartHour workEndHour bufferMinutes
      searchEndDate u = Return (Some slot)"
    by blast
  from loop_body_Return_slot(1,3)[OF this]
  show ?thesis by (simp add: isWithinWorkingHours_def Let_def)
qed

text \<open>With every hour of the day open (0 to 24) and the search starting on Saturday
  2026-01-10 at 10:00, the slot found is on Monday 2026-01-12 at 00:00.\<close>

theorem findEarliestFitSlot_weekday_only_witness:
  "findEarliestFitSlot (instant 20463 10 0) 30 [] 0 24 15 (instant 20470 0 0)
     = Some (Some \<lparr>start = instant 20465 0 0, end' = instant 20465 0 30\<rparr>)
   \<and> getDay (instant 20463 10 0) = 6
   \<and> 1 \<le> getDay (start \<lparr>start = instant 20465 0 0, end' = instant 20465 0 30\<rparr>)
   \<and> getDay (start \<lparr>start = instant 20465 0 0, end' = instant 20465 0 30\<rparr>) \<le> 5"
proof -
  have run: "findEarliestFitSlot (instant 20463 10 0) 30 [] 0 24 15 (instant 20470 0 0)
     = Some (Some \<lparr>start = instant 20465 0 0, end' = instant 20465 0 30\<rparr>)"
    by code_simp
  have sat: "getDay (instant 20463 10 0) = 6" by code_simp
  from findEarliestFitSlot_weekday_only[OF run] run sat show ?thesis by simp
qed

text \<open>
  C6. The conflict test is the strict half-open overlap: a busy interval conflicts with
  the trial slot exactly when it starts strictly before the buffered end of the trial
  and ends strictly after the trial start, and a busy interval that ends exactly at the
  trial start does not conflict. In a pass that reaches the conflict test, the search
  jumps exactly when some busy interval overlaps in this sense, and returns the slot at
  the trial start when every busy interval ends there.
\<close>

theorem conflict_test_strict_half_open:
  assumes "potentialEndTime = t + (d + buf) * 60000"
    and "potentialEndTime \<le> E"
    and "isWithinWorkingHours t sh eh"
    and "\<not> endsOutsideWorkingDay potentialEndTime t eh"
  shows "(conflicts t potentialEndTime x \<longleftrightarrow> start x < potentialEndTime \<and> t < end' x)
       \<and> (end' x = t \<longrightarrow> \<not> conflicts t potentialEndTime x)
       \<and> ((\<exists>u. loop_body d busy sh eh buf E t = Continue u)
            \<longleftrightarrow> (\<exists>y \<in> set busy. start y < potentialEndTime \<and> t < end' y))
       \<and> ((\<forall>y \<in> set busy. end' y = t)
            \<longrightarrow> loop_body d busy sh eh buf E t
                  = Return (Some \<lparr>start = t, end' = t + d * 60000\<rparr>))"
proof -
  have body: "loop_body d busy sh eh buf E t =
      (case find (conflicts t potentialEndTime) busy of
         Some busySlot \<Rightarrow> Continue (end' busySlot)
       | None \<Rightarrow> Return (Some \<lparr>start = t, end' = t + d * 60000\<rparr>))"
    using assms by (simp add: loop_body_def Let_def)
  have c3: "(\<exists>u. loop_body d busy sh eh buf E t = Continue u)
            \<longleftrightarrow> (\<exists>y \<in> set busy. start y < potentialEndTime \<and> t < end' y)"
  proof (cases "find (conflicts t potentialEndTime) busy")
    case None
    then have "\<forall>y \<in> set busy. \<not> conflicts t potentialEndTime y"
      by (simp add: find_None_iff)
    moreover from None
    have "loop_body d busy sh eh buf E t = Return (Some \<lparr>start = t, end' = t + d * 60000\<rparr>)"
      by (simp add: body)
    ultimately show ?thesis by (auto simp: conflicts_def)
  next
    case (Some y)
    then have "y \<in> set busy" "conflicts t potentialEndTime y"
      by (auto simp: find_Some_iff)
    with Some show ?thesis by (auto simp: body conflicts_def)
  qed
  have c4: "(\<forall>y \<in> set busy. end' y = t)
            \<longrightarrow> loop_body d busy sh eh buf E t = Return (Some \<lparr>start = t, end' = t + d * 60000\<rparr>)"
  proof
    assume "\<forall>y \<in> set busy. end' y = t"
    then have "find (conflicts t potentialEndTime) busy = None"
      by (auto simp: find_None_iff conflicts_def)
    then show "loop_body d busy sh eh buf E t = Return (Some \<lparr>start = t, end' = t + d * 60000\<rparr>)"
      by (simp add: body)
  qed
  show ?thesis using c3 c4 by (simp add: conflicts_def)
qed

text \<open>Monday 10:00, a 30-minute task, and a busy interval from 09:00 to 10:00: the
  slot at 10:00 is returned.\<close>

theorem conflict_test_strict_half_open_witness:
  "instant 20458 10 45 = instant 20458 10 0 + (30 + 15) * 60000
   \<and> instant 20458 10 45 \<le> instant 20458 17 0
   \<and> isWithinWorkingHours (instant 20458 10 0) 9 17
   \<and> \<not> endsOutsideWorkingDay (instant 20458 10 45) (instant 20458 10 0) 17
   \<and> loop_body 30 [\<lparr>start = instant 20458 9 0, end' = instant 20458 10 0\<rparr>] 9 17 15
        (instant 20458 17 0) (instant 20458 10 0)
      = Return (Some \<lparr>start = instant 20458 10 0, end' = instant 20458 10 0 + 30 * 60000\<rparr>)"
proof -
  have h1: "instant 20458 10 45 = instant 20458 10 0 + (30 + 15) * 60000" by code_simp
  have h2: "instant 20458 10 45 \<le> instant 20458 17 0" by code_simp
  have h3: "isWithinWorkingHours (instant 20458 10 0) 9 17" by code_simp
  have h4: "\<not> endsOutsideWorkingDay (instant 20458 10 45) (instant 20458 10 0) 17" by code_simp
  from conflict_test_strict_half_open[OF h1 h2 h3 h4,
      of "\<lparr>start = instant 20458 9 0, end' = instant 20458 10 0\<rparr>"
         "[\<lparr>start = instant 20458 9 0, end' = instant 20458 10 0\<rparr>]"]
  show ?thesis using h1 h2 h3 h4 by simp
qed

subsection \<open>Scenario A: a search that starts before opening time\<close>

lemma scenarioA_first_pass:
  "loop_body 30 [] 9 17 15 E (instant 20458 8 0) =
     (if instant 20458 8 45 > E then Return None else Continue (instant 20459 9 0))"
proof -
  have "instant 20458 8 0 + (30 + 15) * 60000 = instant 20458 8 45" by code_simp
  moreover have "\<not> isWithinWorkingHours (instant 20458 8 0) 9 17" by code_simp
  moreover have "moveToNextWorkingDay (instant 20458 8 0) 9 = instant 20459 9 0" by code_simp
  ultimately show ?thesis by (simp add: loop_body_def Let_def)
qed

lemma scenarioA_second_pass:
  "loop_body 30 [] 9 17 15 E (instant 20459 9 0) =
     (if instant 20459 9 45 > E then Return None
      else Return (Some \<lparr>start = instant 20459 9 0, end' = instant 20459 9 30\<rparr>))"
proof -
  have "instant 20459 9 0 + (30 + 15) * 60000 = instant 20459 9 45" by code_simp
  moreover have "instant 20459 9 0 + 30 * 60000 = instant 20459 9 30" by code_simp
  moreover have "isWithinWorkingHours (instant 20459 9 0) 9 17" by code_simp
  moreover have "\<not> endsOutsideWorkingDay (instant 20459 9 45) (instant 20459 9 0) 17" by code_simp
  ultimately show ?thesis by (simp add: loop_body_def Let_def)
qed

lemma scenarioA_order:
  "instant 20458 8 0 < instant 20458 8 45" "instant 20458 8 45 < instant 20459 9 0"
  "instant 20459 9 0 < instant 20459 9 45"
  by code_simp+

lemma scenarioA_days:
  "getDay (instant 20458 8 0) = 1" "getDay (instant 20458 9 0) = 1"
  "getDay (instant 20459 9 0) = 2" "instant 20459 9 0 \<noteq> instant 20458 9 0"
  by code_simp+

text \<open>
  C1 (the code differs). The search starts on Monday 2026-01-05 at 08:00, with no busy
  interval, working hours 9 to 17, a buffer of 15 minutes and a task of 30 minutes.
  Whatever the end of the search window, the result is never the slot of Monday 09:00:
  the first pass moves the trial time to 09:00 and then one day on, so the slot found is
  Tuesday 09:00-09:30 when the window admits it, and \<open>null\<close> otherwise.
\<close>

theorem scenarioA_places_on_tuesday:
  "findEarliestFitSlot (instant 20458 8 0) 30 [] 9 17 15 searchEndDate =
     Some (if instant 20459 9 45 \<le> searchEndDate
           then Some \<lparr>start = instant 20459 9 0, end' = instant 20459 9 30\<rparr>
           else None)
   \<and> findEarliestFitSlot (instant 20458 8 0) 30 [] 9 17 15 searchEndDate \<noteq>
     Some (Some \<lparr>start = instant 20458 9 0, end' = instant 20458 9 30\<rparr>)"
proof -
  have "\<exists>k. loop_iterations (Suc (Suc 0)) 30 [] 9 17 15 searchEndDate (instant 20458 8 0) =
     Some (if instant 20459 9 45 \<le> searchEndDate
           then Some \<lparr>start = instant 20459 9 0, end' = instant 20459 9 30\<rparr>
           else None, k)"
    using scenarioA_order
    by (auto simp: scenarioA_first_pass scenarioA_second_pass)
  then have "findEarliestFitSlot (instant 20458 8 0) 30 [] 9 17 15 searchEndDate =
     Some (if instant 20459 9 45 \<le> searchEndDate
           then Some \<lparr>start = instant 20459 9 0, end' = instant 20459 9 30\<rparr>
           else None)"
    unfolding findEarliestFitSlot_def using iterations_while_loop by blast
  then show ?thesis using scenarioA_days(4) by simp
qed

subsection \<open>The end-of-day test\<close>

lemma Day_of_day_time:
  "0 \<le> r \<Longrightarrow> r < msPerDay \<Longrightarrow> Day (n * msPerDay + r) = n"
  by (simp add: Day_def msPerDay_def)

lemma TimeWithinDay_of_day_time:
  "0 \<le> r \<Longrightarrow> r < msPerDay \<Longrightarrow> TimeWithinDay (n * msPerDay + r) = r"
  by (simp add: TimeWithinDay_def msPerDay_def)

lemma closing_time:
  assumes "0 \<le> eh" "eh \<le> 23"
  shows "Day (setHours t eh) = Day t"
    and "getHours (setHours t eh) = eh"
    and "getMinutes (setHours t eh) = 0"
    and "getDate (setHours t eh) = getDate t"
proof -
  from assms have r: "0 \<le> eh * msPerHour" "eh * msPerHour < msPerDay"
    by (simp_all add: msPerHour_def msPerDay_def)
  show d: "Day (setHours t eh) = Day t"
    unfolding setHours_def by (rule Day_of_day_time[OF r])
  have w: "TimeWithinDay (setHours t eh) = eh * msPerHour"
    unfolding setHours_def by (rule TimeWithinDay_of_day_time[OF r])
  show "getHours (setHours t eh) = eh"
    by (simp add: getHours_def w msPerHour_def)
  have "eh * msPerHour div msPerMinute = (eh * 60) * 60000 div 60000"
    by (simp add: msPerHour_def msPerMinute_def)
  also have "\<dots> = eh * 60"
    by (rule nonzero_mult_div_cancel_right) simp
  finally show "getMinutes (setHours t eh) = 0"
    by (simp add: getMinutes_def w)
  show "getDate (setHours t eh) = getDate t"
    by (simp add: getDate_def d)
qed

lemma minute_past_closing_time:
  assumes "0 \<le> eh" "eh \<le> 23"
  shows "getHours (setHours t eh + msPerMinute) = eh"
    and "getMinutes (setHours t eh + msPerMinute) = 1"
proof -
  from assms have r: "0 \<le> eh * msPerHour + msPerMinute" "eh * msPerHour + msPerMinute < msPerDay"
    by (simp_all add: msPerHour_def msPerDay_def msPerMinute_def)
  have "setHours t eh + msPerMinute = Day t * msPerDay + (eh * msPerHour + msPerMinute)"
    by (simp add: setHours_def)
  then have w: "TimeWithinDay (setHours t eh + msPerMinute) = eh * msPerHour + msPerMinute"
    using TimeWithinDay_of_day_time[OF r, of "Day t"] by (simp only:)
  have "getHours (setHours t eh + msPerMinute) = (eh * msPerHour + msPerMinute) div msPerHour"
    by (simp only: getHours_def w)
  also have "\<dots> = eh"
    by (simp add: msPerHour_def msPerMinute_def)
  finally show "getHours (setHours t eh + msPerMinute) = eh" .
  have "(eh * msPerHour + msPerMinute) div msPerMinute = (eh * 60 + 1) * 60000 div 60000"
    by (simp add: msPerHour_def msPerMinute_def)
  also have "\<dots> = eh * 60 + 1"
    by (rule nonzero_mult_div_cancel_right) simp
  finally have "(eh * msPerHour + msPerMinute) div msPerMinute = eh * 60 + 1" .
  moreover have "getMinutes (setHours t eh + msPerMinute)
      = ((eh * msPerHour + msPerMinute) div msPerMinute) mod 60"
    by (simp only: getMinutes_def w)
  ultimately show "getMinutes (setHours t eh + msPerMinute) = 1"
    by simp
qed

text \<open>
  C2 as stated fails: the test of the end of the day is made on the potential end time,
  which includes the buffer. A 30-minute task tried on Monday at 16:30 ends, without the
  buffer, exactly at 17:00 of the same day. With a buffer of 0 it is placed there; with
  the buffer of 15 minutes the same trial is rejected and the task is placed on Tuesday
  at 09:00.
\<close>

theorem end_of_day_test_depends_on_buffer:
  "instant 20458 16 30 + 30 * 60000 = setHours (instant 20458 16 30) 17
   \<and> findEarliestFitSlot (instant 20458 16 30) 30 [] 9 17 0 (instant 20465 17 0)
       = Some (Some \<lparr>start = instant 20458 16 30, end' = instant 20458 17 0\<rparr>)
   \<and> findEarliestFitSlot (instant 20458 16 30) 30 [] 9 17 15 (instant 20465 17 0)
       = Some (Some \<lparr>start = instant 20459 9 0, end' = instant 20459 9 30\<rparr>)"
  by code_simp

text \<open>
  C2, amended. The end-of-day test is applied to the buffered end, the trial start plus
  \<open>durationMinutes + bufferMinutes\<close>. In a pass whose trial start is inside working
  hours and whose buffered end is within the search window, the outcome is decided by
  the test on the buffered end: when it fails the search moves to the next working day,
  and otherwise the conflict test follows. A buffered end that is exactly
  \<open>workEndHour\<close>:00 on the day of the trial start passes the test, and one that is one
  minute later fails it.
\<close>

theorem end_of_day_test_on_buffered_end:
  assumes "0 \<le> eh" and "eh \<le> 23"
    and "isWithinWorkingHours t sh eh"
    and "potentialEndTime = t + (d + buf) * 60000"
    and "potentialEndTime \<le> E"
  shows "loop_body d busy sh eh buf E t =
           (if endsOutsideWorkingDay potentialEndTime t eh
            then Continue (moveToNextWorkingDay t sh)
            else (case find (conflicts t potentialEndTime) busy of
                    Some busySlot \<Rightarrow> Continue (end' busySlot)
                  | None \<Rightarrow> Return (Some \<lparr>start = t, end' = t + d * 60000\<rparr>)))
       \<and> \<not> endsOutsideWorkingDay (setHours t eh) t eh
       \<and> endsOutsideWorkingDay (setHours t eh + msPerMinute) t eh"
proof -
  have "loop_body d busy sh eh buf E t =
           (if endsOutsideWorkingDay potentialEndTime t eh
            then Continue (moveToNextWorkingDay t sh)
            else (case find (conflicts t potentialEndTime) busy of
                    Some busySlot \<Rightarrow> Continue (end' busySlot)
                  | None \<Rightarrow> Return (Some \<lparr>start = t, end' = t + d * 60000\<rparr>)))"
    using assms(3,4,5) by (simp add: loop_body_def Let_def)
  moreover from closing_time[OF assms(1,2), of t]
  have "\<not> endsOutsideWorkingDay (setHours t eh) t eh"
    by (simp add: endsOutsideWorkingDay_def)
  moreover from minute_past_closing_time[OF assms(1,2), of t]
  have "endsOutsideWorkingDay (setHours t eh + msPerMinute) t eh"
    by (simp add: endsOutsideWorkingDay_def)
  ultimately show ?thesis by blast
qed

text \<open>Monday 16:15, a task of 30 minutes and a buffer of 15: the buffered end is
  17:00 exactly, and the slot is returned. With a task of 31 minutes the buffered end is
  17:01 and the search moves to Tuesday 09:00.\<close>

theorem end_of_day_test_on_buffered_end_witness:
  "(0::int) \<le> 17 \<and> (17::int) \<le> 23
   \<and> isWithinWorkingHours (instant 20458 16 15) 9 17
   \<and> instant 20458 17 0 = instant 20458 16 15 + (30 + 15) * 60000
   \<and> instant 20458 17 0 \<le> instant 20465 17 0
   \<and> instant 20458 17 0 = setHours (instant 20458 16 15) 17
   \<and> loop_body 30 [] 9 17 15 (instant 20465 17 0) (instant 20458 16 15)
       = Return (Some \<lparr>start = instant 20458 16 15, end' = instant 20458 16 15 + 30 * 60000\<rparr>)
   \<and> instant 20458 17 1 = instant 20458 16 15 + (31 + 15) * 60000
   \<and> instant 20458 17 1 = setHours (instant 20458 16 15) 17 + msPerMinute
   \<and> loop_body 31 [] 9 17 15 (instant 20465 17 0) (instant 20458 16 15)
       = Continue (moveToNextWorkingDay (instant 20458 16 15) 9)
   \<and> moveToNextWorkingDay (instant 20458 16 15) 9 = instant 20459 9 0"
proof -
  have h1: "(0::int) \<le> 17" and h2: "(17::int) \<le> 23" by simp_all
  have h3: "isWithinWorkingHours (instant 20458 16 15) 9 17" by code_simp
  have h4: "instant 20458 17 0 = instant 20458 16 15 + (30 + 15) * 60000" by code_simp
  have h5: "instant 20458 17 0 \<le> instant 20465 17 0" by code_simp
  have h6: "instant 20458 17 0 = setHours (instant 20458 16 15) 17" by code_simp
  have g4: "instant 20458 17 1 = instant 20458 16 15 + (31 + 15) * 60000" by code_simp
  have g5: "instant 20458 17 1 \<le> instant 20465 17 0" by code_simp
  have g6: "instant 20458 17 1 = setHours (instant 20458 16 15) 17 + msPerMinute" by code_simp
  have m: "moveToNextWorkingDay (instant 20458 16 15) 9 = instant 20459 9 0" by code_simp
  from end_of_day_test_on_buffered_end[OF h1 h2 h3 h4 h5, of "[]"] h6
  have a: "loop_body 30 [] 9 17 15 (instant 20465 17 0) (instant 20458 16 15)
       = Return (Some \<lparr>start = instant 20458 16 15, end' = instant 20458 16 15 + 30 * 60000\<rparr>)"
    by simp
  from end_of_day_test_on_buffered_end[OF h1 h2 h3 g4 g5, of "[]"] g6
  have r: "loop_body 31 [] 9 17 15 (instant 20465 17 0) (instant 20458 16 15)
       = Continue (moveToNextWorkingDay (instant 20458 16 15) 9)"
    by simp
  from h1 h2 h3 h4 h5 h6 a g4 g6 r m show ?thesis by blast
qed

subsection \<open>Termination\<close>

text \<open>
  With a start hour that is not negative the loop returns, after at most as many passes
  as there are busy intervals plus calendar days met by the range from the search start
  to the search end.
\<close>

lemma findEarliestFitSlot_terminates_bounded:
  assumes "0 \<le> workStartHour"
  shows "\<exists>r n k. findEarliestFitSlot searchStartTime durationMinutes busy workStartHour
                   workEndHour bufferMinutes searchEndDate = Some r
               \<and> loop_iterations n durationMinutes busy workStartHour workEndHour
                   bufferMinutes searchEndDate searchStartTime = Some (r, k)
               \<and> k \<le> length busy + calendarDays searchStartTime searchEndDate"
proof -
  from loop_iterations_bounded[OF assms, of durationMinutes busy workEndHour bufferMinutes
      searchEndDate searchStartTime]
  obtain n r k where run: "loop_iterations n durationMinutes busy workStartHour workEndHour
        bufferMinutes searchEndDate searchStartTime = Some (r, k)"
    and k: "k \<le> pendingBusy busy searchStartTime + calendarDays searchStartTime searchEndDate"
    by blast
  from iterations_while_loop[OF run]
  have "findEarliestFitSlot searchStartTime durationMinutes busy workStartHour
          workEndHour bufferMinutes searchEndDate = Some r"
    by (simp add: findEarliestFitSlot_def)
  moreover from k pendingBusy_le[of busy searchStartTime]
  have "k \<le> length busy + calendarDays searchStartTime searchEndDate" by simp
  ultimately show ?thesis using run by blast
qed

text \<open>
  C5 (the code differs). The claim says that a task whose duration plus buffer exceeds
  the working day is answered by \<open>null\<close>. The test that the slot ends on the day it
  starts compares days of the month only, so it passes when the end falls on the same
  day number of a later month. From Monday 2026-01-05 at 09:00, a task of 44640 minutes
  (31 days) with the buffer of 15 minutes has its potential end on 2026-02-05 at 09:15:
  both dates are a 5th, and the slot from 2026-01-05 09:00 to 2026-02-05 09:00 is
  returned.
\<close>

theorem month_long_task_is_placed:
  "(17 - 9) * 60 < (44640 + 15 :: int)
   \<and> instant 20458 9 0 \<le> instant 20500 0 0
   \<and> findEarliestFitSlot (instant 20458 9 0) 44640 [] 9 17 15 (instant 20500 0 0)
       = Some (Some \<lparr>start = instant 20458 9 0, end' = instant 20489 9 0\<rparr>)
   \<and> getDate (instant 20458 9 0) = 5 \<and> getDate (instant 20489 9 15) = 5
   \<and> Day (instant 20489 9 15) - Day (instant 20458 9 0) = 31"
  by code_simp

section \<open>The scheduling loop\<close>

subsection \<open>The three outcomes of one pass\<close>

lemma newDate_simps: "newDate h v = (h @ [v], length h)"
  by (simp add: newDate_def)

lemma finder_returns_in_loop:
  "\<exists>r. findEarliestFitSlot t d b SCHEDULING_WORK_DAY_START_HOUR SCHEDULING_WORK_DAY_END_HOUR
          SCHEDULING_BUFFER_MINUTES E = Some r"
  by (rule findEarliestFitSlot_returns) (simp add: SCHEDULING_WORK_DAY_START_HOUR_def)

lemma schedule_iteration_NoSlot:
  assumes "findEarliestFitSlot (cursor s) (duration_minutes st) (busyValues s)
             SCHEDULING_WORK_DAY_START_HOUR SCHEDULING_WORK_DAY_END_HOUR
             SCHEDULING_BUFFER_MINUTES E = Some None"
  shows "schedule_iteration C E s st =
           Some (s\<lparr>unscheduledSubtasks := unscheduledSubtasks s @ [subtask st @ '' (No slot found)''],
                   ledger := ledger s @ [NoSlotFound]\<rparr>)"
  using assms by (simp add: schedule_iteration_def cursor_def busyValues_def)

lemma schedule_iteration_Placed:
  assumes "findEarliestFitSlot (cursor s) (duration_minutes st) (busyValues s)
             SCHEDULING_WORK_DAY_START_HOUR SCHEDULING_WORK_DAY_END_HOUR
             SCHEDULING_BUFFER_MINUTES E = Some (Some slot)"
    and "C (world s) (subtask st) (start slot) (end' slot) = (EventUrl url, w)"
  shows "schedule_iteration C E s st =
           Some (s\<lparr>heap := heap s @ [start slot, end' slot + SCHEDULING_BUFFER_MINUTES * 60000],
                   busyTimes :=
                     sort_key (\<lambda>b. getTime (heap s @ [start slot,
                                   end' slot + SCHEDULING_BUFFER_MINUTES * 60000]) (start b))
                       (busyTimes s @ [\<lparr>start = length (heap s), end' = Suc (length (heap s))\<rparr>]),
                   nextAvailableStartTime := Suc (length (heap s)),
                   scheduledCount := scheduledCount s + 1,
                   scheduledEvents := scheduledEvents s @ [(subtask st, url)],
                   world := w,
                   ledger := ledger s @ [Placed slot]\<rparr>)"
  using assms by (simp add: schedule_iteration_def cursor_def busyValues_def newDate_def)

lemma schedule_iteration_Error:
  assumes "findEarliestFitSlot (cursor s) (duration_minutes st) (busyValues s)
             SCHEDULING_WORK_DAY_START_HOUR SCHEDULING_WORK_DAY_END_HOUR
             SCHEDULING_BUFFER_MINUTES E = Some (Some slot)"
    and "C (world s) (subtask st) (start slot) (end' slot) = (CalendarError, w)"
  shows "schedule_iteration C E s st =
           Some (s\<lparr>heap := (heap s)[nextAvailableStartTime s := cursor s + 60000],
                   unscheduledSubtasks :=
                     unscheduledSubtasks s @ [subtask st @ '' (Calendar API error)''],
                   world := w,
                   ledger := ledger s @ [CalendarApiError slot]\<rparr>)"
  using assms
  by (simp add: schedule_iteration_def cursor_def busyValues_def Let_def setMinutes_next)

lemma schedule_iteration_cases:
  obtains (NoSlot)
    "findEarliestFitSlot (cursor s) (duration_minutes st) (busyValues s)
       SCHEDULING_WORK_DAY_START_HOUR SCHEDULING_WORK_DAY_END_HOUR
       SCHEDULING_BUFFER_MINUTES E = Some None"
  | (Placed) slot url w where
    "findEarliestFitSlot (cursor s) (duration_minutes st) (busyValues s)
       SCHEDULING_WORK_DAY_START_HOUR SCHEDULING_WORK_DAY_END_HOUR
       SCHEDULING_BUFFER_MINUTES E = Some (Some slot)"
    "C (world s) (subtask st) (start slot) (end' slot) = (EventUrl url, w)"
  | (Error) slot w where
    "findEarliestFitSlot (cursor s) (duration_minutes st) (busyValues s)
       SCHEDULING_WORK_DAY_START_HOUR SCHEDULING_WORK_DAY_END_HOUR
       SCHEDULING_BUFFER_MINUTES E = Some (Some slot)"
    "C (world s) (subtask st) (start slot) (end' slot) = (CalendarError, w)"
proof -
  from finder_returns_in_loop[of "cursor s" "duration_minutes st" "busyValues s" E]
  obtain r where r: "findEarliestFitSlot (cursor s) (duration_minutes st) (busyValues s)
       SCHEDULING_WORK_DAY_START_HOUR SCHEDULING_WORK_DAY_END_HOUR
       SCHEDULING_BUFFER_MINUTES E = Some r" by blast
  show thesis
  proof (cases r)
    case None
    with r NoSlot show ?thesis by simp
  next
    case (Some slot)
    obtain res w where c: "C (world s) (subtask st) (start slot) (end' slot) = (res, w)"
      by (cases "C (world s) (subtask st) (start slot) (end' slot)")
    show ?thesis
    proof (cases res)
      case CalendarError
      with r Some c Error show ?thesis by simp
    next
      case (EventUrl url)
      with r Some c Placed show ?thesis by simp
    qed
  qed
qed

text \<open>What the finder's slot looks like in the loop.\<close>

lemma finder_slot_in_loop:
  assumes "findEarliestFitSlot t0 d b sh eh buf E = Some (Some slot)" and "0 \<le> sh"
  shows "t0 \<le> start slot"
    and "end' slot = start slot + d * 60000"
    and "\<forall>x \<in> set b. \<not> conflicts (start slot) (start slot + (d + buf) * 60000) x"
proof -
  have step: "\<And>u u'. t0 \<le> u \<Longrightarrow> u < E \<Longrightarrow> loop_body d b sh eh buf E u = Continue u' \<Longrightarrow> t0 \<le> u'"
    using loop_body_Continue_gt[OF assms(2)] by fastforce
  have "\<exists>u. t0 \<le> u \<and> u < E \<and> loop_body d b sh eh buf E u = Return (Some slot)"
    by (rule findEarliestFitSlot_slot[where I = "\<lambda>u. t0 \<le> u", OF assms(1)]) (simp, rule step)
  then obtain u where u: "t0 \<le> u" "loop_body d b sh eh buf E u = Return (Some slot)"
    by blast
  from loop_body_Return_slot(1)[OF u(2)] have s: "slot = \<lparr>start = u, end' = u + d * 60000\<rparr>" .
  from s u(1) show "t0 \<le> start slot" by simp
  from s show "end' slot = start slot + d * 60000" by simp
  from loop_body_Return_slot(5)[OF u(2)] s
  show "\<forall>x \<in> set b. \<not> conflicts (start slot) (start slot + (d + buf) * 60000) x" by simp
qed

subsection \<open>No slot found\<close>

text \<open>
  C8. When \<open>findEarliestFitSlot\<close> returns \<open>null\<close> for a request, the pass records
  the request as unscheduled and changes nothing else: the cursor (the object and its
  value), the busy set and the store are as before, so the finder is called for any later
  request with the same search start and the same busy intervals.
\<close>

theorem no_slot_leaves_cursor_and_busy:
  assumes "findEarliestFitSlot (cursor s) (duration_minutes st) (busyValues s)
             SCHEDULING_WORK_DAY_START_HOUR SCHEDULING_WORK_DAY_END_HOUR
             SCHEDULING_BUFFER_MINUTES rangeEnd = Some None"
  shows "\<exists>s'. schedule_iteration createCalendarEvent rangeEnd s st = Some s'
           \<and> unscheduledSubtasks s' = unscheduledSubtasks s @ [subtask st @ '' (No slot found)'']
           \<and> scheduledEvents s' = scheduledEvents s
           \<and> scheduledCount s' = scheduledCount s
           \<and> cursor s' = cursor s
           \<and> nextAvailableStartTime s' = nextAvailableStartTime s
           \<and> busyValues s' = busyValues s
           \<and> busyTimes s' = busyTimes s
           \<and> heap s' = heap s
           \<and> (\<forall>st2. findEarliestFitSlot (cursor s') (duration_minutes st2) (busyValues s')
                  SCHEDULING_WORK_DAY_START_HOUR SCHEDULING_WORK_DAY_END_HOUR
                  SCHEDULING_BUFFER_MINUTES rangeEnd
                = findEarliestFitSlot (cursor s) (duration_minutes st2) (busyValues s)
                  SCHEDULING_WORK_DAY_START_HOUR SCHEDULING_WORK_DAY_END_HOUR
                  SCHEDULING_BUFFER_MINUTES rangeEnd)"
proof -
  define s' where "s' = s\<lparr>unscheduledSubtasks :=
                             unscheduledSubtasks s @ [subtask st @ '' (No slot found)''],
                           ledger := ledger s @ [NoSlotFound]\<rparr>"
  have run: "schedule_iteration createCalendarEvent rangeEnd s st = Some s'"
    unfolding s'_def by (rule schedule_iteration_NoSlot[OF assms])
  have frame: "heap s' = heap s" "busyTimes s' = busyTimes s"
    "nextAvailableStartTime s' = nextAvailableStartTime s"
    "scheduledEvents s' = scheduledEvents s" "scheduledCount s' = scheduledCount s"
    and added: "unscheduledSubtasks s' = unscheduledSubtasks s @ [subtask st @ '' (No slot found)'']"
    by (simp_all add: s'_def)
  from frame have same: "cursor s' = cursor s" "busyValues s' = busyValues s"
    by (simp_all add: cursor_def busyValues_def)
  from run frame added same show ?thesis by simp
qed

text \<open>The window is Monday 09:00 to 17:00 and the task takes 600 minutes: no slot is
  found, and the cursor is still Monday 09:00.\<close>

theorem no_slot_leaves_cursor_and_busy_witness:
  "findEarliestFitSlot (cursor (initial_state (instant 20458 9 0) [] (0::nat))) 
       (duration_minutes \<lparr>subtask = ''long'', duration_minutes = 600\<rparr>)
       (busyValues (initial_state (instant 20458 9 0) [] (0::nat)))
       SCHEDULING_WORK_DAY_START_HOUR SCHEDULING_WORK_DAY_END_HOUR
       SCHEDULING_BUFFER_MINUTES (instant 20458 17 0) = Some None
   \<and> (\<exists>s'. schedule_iteration calendarAlwaysCreates (instant 20458 17 0)
              (initial_state (instant 20458 9 0) [] 0)
              \<lparr>subtask = ''long'', duration_minutes = 600\<rparr> = Some s'
         \<and> unscheduledSubtasks s' = [''long (No slot found)'']
         \<and> cursor s' = instant 20458 9 0
         \<and> busyValues s' = [])"
proof -
  have h: "findEarliestFitSlot (cursor (initial_state (instant 20458 9 0) [] (0::nat))) 
       (duration_minutes \<lparr>subtask = ''long'', duration_minutes = 600\<rparr>)
       (busyValues (initial_state (instant 20458 9 0) [] (0::nat)))
       SCHEDULING_WORK_DAY_START_HOUR SCHEDULING_WORK_DAY_END_HOUR
       SCHEDULING_BUFFER_MINUTES (instant 20458 17 0) = Some None"
    by code_simp
  have c: "cursor (initial_state (instant 20458 9 0) [] (0::nat)) = instant 20458 9 0"
    by code_simp
  have b: "busyValues (initial_state (instant 20458 9 0) [] (0::nat)) = []"
    by code_simp
  have u: "unscheduledSubtasks (initial_state (instant 20458 9 0) [] (0::nat)) = []"
    by code_simp
  from no_slot_leaves_cursor_and_busy[OF h, of calendarAlwaysCreates] h c b u
  show ?thesis by auto
qed

text \<open>After the 600-minute task found no slot, a 30-minute task is placed at Monday
  09:00, the position from which the first search started.\<close>

lemma later_shorter_request_uses_same_cursor:
  "map_option (\<lambda>s. (placedOf (ledger s), unscheduledSubtasks s))
     (schedule_loop calendarAlwaysCreates (instant 20458 17 0)
        (initial_state (instant 20458 9 0) [] 0)
        [\<lparr>subtask = ''long'', duration_minutes = 600\<rparr>,
         \<lparr>subtask = ''short'', duration_minutes = 30\<rparr>])
   = Some ([\<lparr>start = instant 20458 9 0, end' = instant 20458 9 30\<rparr>],
           [''long (No slot found)''])"
  by code_simp

subsection \<open>The cursor\<close>




subsection \<open>A calendar error\<close>

text \<open>
  What a pass does when \<open>createCalendarEvent\<close> throws, in a well-formed state: the
  request is recorded as unscheduled, the cursor advances by one minute, no interval is
  added to \<open>busyTimes\<close>, and every interval whose end is the cursor's own object ends
  one minute later.
\<close>

lemma calendar_error_step:
  assumes "findEarliestFitSlot (cursor s) (duration_minutes st) (busyValues s)
             SCHEDULING_WORK_DAY_START_HOUR SCHEDULING_WORK_DAY_END_HOUR
             SCHEDULING_BUFFER_MINUTES rangeEnd = Some (Some slot)"
    and "createCalendarEvent (world s) (subtask st) (start slot) (end' slot) = (CalendarError, w)"
    and "wellFormed s"
  shows "\<exists>s'. schedule_iteration createCalendarEvent rangeEnd s st = Some s'
           \<and> unscheduledSubtasks s' = unscheduledSubtasks s @ [subtask st @ '' (Calendar API error)'']
           \<and> cursor s' = cursor s + 60000
           \<and> busyTimes s' = busyTimes s
           \<and> busyValues s' =
               map (\<lambda>b. \<lparr>start = getTime (heap s) (start b),
                          end' = (if end' b = nextAvailableStartTime s
                                  then getTime (heap s) (end' b) + 60000
                                  else getTime (heap s) (end' b))\<rparr>) (busyTimes s)"
proof -
  from assms(3) have c: "nextAvailableStartTime s < length (heap s)"
    and b: "\<forall>b \<in> set (busyTimes s). start b \<noteq> nextAvailableStartTime s"
    by (simp_all add: wellFormed_def)
  from c b show ?thesis
    by (auto simp: schedule_iteration_Error[where C = createCalendarEvent, OF assms(1,2)]
        cursor_def busyValues_def valueOf_def getTime_def nth_list_update)
qed

text \<open>
  C3 (the code differs). Two tasks of 60 minutes, no busy interval, the search starting
  on Monday 2026-01-05 at 09:00; the calendar accepts the first event and fails on the
  second. After the first task the busy set is the interval 09:00-10:15 and the cursor
  is 10:15: the cursor variable was assigned the very \<open>Date\<close> object that is the end
  of that interval. When the second commit fails, \<open>setMinutes\<close> changes that object,
  so the busy interval becomes 09:00-10:16.
\<close>

theorem calendar_error_changes_busy_interval:
  "map_option busyValues
     (schedule_loop (calendarFailsAt 1) (instant 20465 17 0)
        (initial_state (instant 20458 9 0) [] 0)
        [\<lparr>subtask = ''a'', duration_minutes = 60\<rparr>])
   = Some [\<lparr>start = instant 20458 9 0, end' = instant 20458 10 15\<rparr>]
   \<and> map_option busyValues
     (schedule_loop (calendarFailsAt 1) (instant 20465 17 0)
        (initial_state (instant 20458 9 0) [] 0)
        [\<lparr>subtask = ''a'', duration_minutes = 60\<rparr>, \<lparr>subtask = ''b'', duration_minutes = 60\<rparr>])
   = Some [\<lparr>start = instant 20458 9 0, end' = instant 20458 10 16\<rparr>]
   \<and> map_option unscheduledSubtasks
     (schedule_loop (calendarFailsAt 1) (instant 20465 17 0)
        (initial_state (instant 20458 9 0) [] 0)
        [\<lparr>subtask = ''a'', duration_minutes = 60\<rparr>, \<lparr>subtask = ''b'', duration_minutes = 60\<rparr>])
   = Some [''b (Calendar API error)'']
   \<and> map_option cursor
     (schedule_loop (calendarFailsAt 1) (instant 20465 17 0)
        (initial_state (instant 20458 9 0) [] 0)
        [\<lparr>subtask = ''a'', duration_minutes = 60\<rparr>, \<lparr>subtask = ''b'', duration_minutes = 60\<rparr>])
   = Some (instant 20458 10 16)"
  by code_simp

subsection \<open>Validation of the subtasks\<close>


text \<open>
  In every pass the outcome carries the result of \<open>findEarliestFitSlot\<close> called
  with the duration of the request as it is, and a slot that was found lasts exactly
  that duration.
\<close>

lemma schedule_iteration_outcome:
  "\<exists>s' oc. schedule_iteration C E s st = Some s'
        \<and> ledger s' = ledger s @ [oc]
        \<and> findEarliestFitSlot (cursor s) (duration_minutes st) (busyValues s)
              SCHEDULING_WORK_DAY_START_HOUR SCHEDULING_WORK_DAY_END_HOUR
              SCHEDULING_BUFFER_MINUTES E = Some (slotOf oc)
        \<and> (\<forall>slot. slotOf oc = Some slot
              \<longrightarrow> end' slot = start slot + duration_minutes st * 60000)"
proof (cases rule: schedule_iteration_cases[where s = s and st = st and E = E and C = C])
  case NoSlot
  then show ?thesis by (simp add: schedule_iteration_NoSlot)
next
  case (Placed slot url w)
  have sh: "0 \<le> SCHEDULING_WORK_DAY_START_HOUR"
    by (simp add: SCHEDULING_WORK_DAY_START_HOUR_def)
  from finder_slot_in_loop(2)[OF Placed(1) sh] Placed(1) show ?thesis
    by (simp add: schedule_iteration_Placed[where C = C, OF Placed])
next
  case (Error slot w)
  have sh: "0 \<le> SCHEDULING_WORK_DAY_START_HOUR"
    by (simp add: SCHEDULING_WORK_DAY_START_HOUR_def)
  from finder_slot_in_loop(2)[OF Error(1) sh] Error(1) show ?thesis
    by (simp add: schedule_iteration_Error[where C = C, OF Error])
qed

lemma schedule_loop_outcomes:
  "\<exists>s' ocs. schedule_loop C E s subtasks = Some s'
        \<and> ledger s' = ledger s @ ocs
        \<and> list_all2 (\<lambda>st oc. \<forall>slot. slotOf oc = Some slot
                 \<longrightarrow> end' slot = start slot + duration_minutes st * 60000) subtasks ocs"
proof (induction subtasks arbitrary: s)
  case Nil
  then show ?case by simp
next
  case (Cons st subtasks)
  from schedule_iteration_outcome[of C E s st] obtain s1 oc
    where s1: "schedule_iteration C E s st = Some s1" "ledger s1 = ledger s @ [oc]"
      and oc: "\<forall>slot. slotOf oc = Some slot
                 \<longrightarrow> end' slot = start slot + duration_minutes st * 60000"
    by blast
  from Cons[of s1] obtain s' ocs
    where s': "schedule_loop C E s1 subtasks = Some s'" "ledger s' = ledger s1 @ ocs"
      and ocs: "list_all2 (\<lambda>st oc. \<forall>slot. slotOf oc = Some slot
                 \<longrightarrow> end' slot = start slot + duration_minutes st * 60000) subtasks ocs"
    by blast
  from s1 s' have "schedule_loop C E s (st # subtasks) = Some s'"
    and "ledger s' = ledger s @ (oc # ocs)"
    by simp_all
  moreover from oc ocs
  have "list_all2 (\<lambda>st oc. \<forall>slot. slotOf oc = Some slot
                 \<longrightarrow> end' slot = start slot + duration_minutes st * 60000)
          (st # subtasks) (oc # ocs)"
    by simp
  ultimately show ?case by blast
qed




subsection \<open>Placed slots do not overlap\<close>

lemma placedOf_append: "placedOf (xs @ ys) = placedOf xs @ placedOf ys"
  by (induction xs rule: placedOf.induct) simp_all

lemma overlaps_sym: "overlaps a b = overlaps b a"
  by (auto simp: overlaps_def)

lemma pairwiseDisjoint_snoc:
  "pairwiseDisjoint (ps @ [p]) \<longleftrightarrow> pairwiseDisjoint ps \<and> (\<forall>q \<in> set ps. \<not> overlaps q p)"
  by (induction ps) auto

lemma pairwiseDisjoint_nth:
  "pairwiseDisjoint ps \<Longrightarrow> i < length ps \<Longrightarrow> j < length ps \<Longrightarrow> i \<noteq> j
     \<Longrightarrow> \<not> overlaps (ps ! i) (ps ! j)"
proof (induction ps arbitrary: i j)
  case Nil
  then show ?case by simp
next
  case (Cons p ps)
  show ?case
  proof (cases i)
    case 0
    with Cons.prems obtain j' where "j = Suc j'" "j' < length ps"
      by (cases j) auto
    with 0 Cons.prems(1) show ?thesis by simp
  next
    case (Suc i')
    show ?thesis
    proof (cases j)
      case 0
      with Suc Cons.prems have "\<not> overlaps p (ps ! i')" by simp
      with 0 Suc show ?thesis by (simp add: overlaps_sym)
    next
      case (Suc j')
      with \<open>i = Suc i'\<close> Cons.prems Cons.IH[of i' j'] show ?thesis by simp
    qed
  qed
qed

lemma wellFormed_after_error:
  assumes "wellFormed s"
    and "heap s' = (heap s)[nextAvailableStartTime s := v]"
    and "busyTimes s' = busyTimes s"
    and "nextAvailableStartTime s' = nextAvailableStartTime s"
  shows "wellFormed s'"
  using assms by (simp add: wellFormed_def)

lemma covered_after_error:
  assumes "wellFormed s" and "covered s q"
    and "heap s' = (heap s)[nextAvailableStartTime s := cursor s + 60000]"
    and "busyTimes s' = busyTimes s"
  shows "covered s' q"
proof -
  from assms(2) obtain b where b: "b \<in> set (busyTimes s)"
    "getTime (heap s) (start b) = start q" "end' q \<le> getTime (heap s) (end' b)"
    by (auto simp: covered_def)
  from assms(1) b(1) have c: "nextAvailableStartTime s < length (heap s)"
    and ne: "start b \<noteq> nextAvailableStartTime s"
    by (simp_all add: wellFormed_def)
  from ne b(2) have "getTime (heap s') (start b) = start q"
    by (simp add: assms(3) getTime_def)
  moreover from c b(3) have "end' q \<le> getTime (heap s') (end' b)"
    by (simp add: assms(3) getTime_def cursor_def nth_list_update)
  ultimately show ?thesis using b(1) by (auto simp: covered_def assms(4))
qed

lemma wellFormed_after_placed:
  assumes "wellFormed s"
    and "heap s' = heap s @ [a, e]"
    and "set (busyTimes s') = insert \<lparr>start = length (heap s), end' = Suc (length (heap s))\<rparr> (set (busyTimes s))"
    and "nextAvailableStartTime s' = Suc (length (heap s))"
  shows "wellFormed s'"
  using assms by (auto simp: wellFormed_def)

lemma covered_after_placed:
  assumes "wellFormed s" and "covered s q"
    and "heap s' = heap s @ vs"
    and "set (busyTimes s) \<subseteq> set (busyTimes s')"
  shows "covered s' q"
proof -
  from assms(2) obtain b where b: "b \<in> set (busyTimes s)"
    "getTime (heap s) (start b) = start q" "end' q \<le> getTime (heap s) (end' b)"
    by (auto simp: covered_def)
  from assms(1) b(1) have "start b < length (heap s)" "end' b < length (heap s)"
    by (simp_all add: wellFormed_def)
  with b(2,3) have "getTime (heap s') (start b) = start q" "end' q \<le> getTime (heap s') (end' b)"
    by (simp_all add: assms(3) getTime_def nth_append)
  with b(1) assms(4) show ?thesis by (auto simp: covered_def)
qed

lemma covered_no_conflict:
  assumes "covered s q"
    and "\<forall>x \<in> set (busyValues s). \<not> conflicts t pe x"
  shows "\<not> overlaps q \<lparr>start = t, end' = pe\<rparr>"
proof -
  from assms(1) obtain b where b: "b \<in> set (busyTimes s)"
    "getTime (heap s) (start b) = start q" "end' q \<le> getTime (heap s) (end' b)"
    by (auto simp: covered_def)
  from b(1) have "valueOf (heap s) b \<in> set (busyValues s)"
    by (simp add: busyValues_def)
  with assms(2) have "\<not> conflicts t pe (valueOf (heap s) b)" by blast
  with b(2,3) show ?thesis
    by (auto simp: conflicts_def valueOf_def overlaps_def)
qed

lemma nonOverlapInv_iteration:
  assumes inv: "nonOverlapInv busy0 s"
    and step: "schedule_iteration C E s st = Some s'"
  shows "nonOverlapInv busy0 s'"
proof (cases rule: schedule_iteration_cases[where s = s and st = st and E = E and C = C])
  case NoSlot
  from step have s': "s' = s\<lparr>unscheduledSubtasks := unscheduledSubtasks s @ [subtask st @ '' (No slot found)''],
                   ledger := ledger s @ [NoSlotFound]\<rparr>"
    by (simp add: schedule_iteration_NoSlot[OF NoSlot])
  from inv show ?thesis
    unfolding s'
    by (simp add: nonOverlapInv_def wellFormed_def covered_def placedWithBuffer_def
        placedOf_append)
next
  case (Error slot w)
  from step have s': "s' = s\<lparr>heap := (heap s)[nextAvailableStartTime s := cursor s + 60000],
                   unscheduledSubtasks :=
                     unscheduledSubtasks s @ [subtask st @ '' (Calendar API error)''],
                   world := w,
                   ledger := ledger s @ [CalendarApiError slot]\<rparr>"
    by (simp add: schedule_iteration_Error[where C = C, OF Error])
  have h: "heap s' = (heap s)[nextAvailableStartTime s := cursor s + 60000]"
    and b: "busyTimes s' = busyTimes s"
    and c: "nextAvailableStartTime s' = nextAvailableStartTime s"
    and p: "placedWithBuffer s' = placedWithBuffer s"
    by (simp_all add: s' placedWithBuffer_def placedOf_append)
  from inv have wf: "wellFormed s" by (simp add: nonOverlapInv_def)
  have "wellFormed s'" by (rule wellFormed_after_error[OF wf h b c])
  moreover have "\<forall>q \<in> set busy0 \<union> set (placedWithBuffer s'). covered s' q"
  proof
    fix q assume "q \<in> set busy0 \<union> set (placedWithBuffer s')"
    with inv p have "covered s q" by (simp add: nonOverlapInv_def)
    then show "covered s' q" by (rule covered_after_error[OF wf _ h b])
  qed
  ultimately show ?thesis using inv p by (simp add: nonOverlapInv_def)
next
  case (Placed slot url w)
  define e where "e = end' slot + SCHEDULING_BUFFER_MINUTES * 60000"
  define h2 where "h2 = heap s @ [start slot, e]"
  from step have s': "s' = s\<lparr>heap := h2,
                   busyTimes :=
                     sort_key (\<lambda>b. getTime h2 (start b))
                       (busyTimes s @ [\<lparr>start = length (heap s), end' = Suc (length (heap s))\<rparr>]),
                   nextAvailableStartTime := Suc (length (heap s)),
                   scheduledCount := scheduledCount s + 1,
                   scheduledEvents := scheduledEvents s @ [(subtask st, url)],
                   world := w,
                   ledger := ledger s @ [Placed slot]\<rparr>"
    by (simp add: schedule_iteration_Placed[where C = C, OF Placed] h2_def e_def)
  have h: "heap s' = heap s @ [start slot, e]"
    and b: "set (busyTimes s') =
              insert \<lparr>start = length (heap s), end' = Suc (length (heap s))\<rparr> (set (busyTimes s))"
    and c: "nextAvailableStartTime s' = Suc (length (heap s))"
    and p: "placedWithBuffer s' = placedWithBuffer s @ [withBuffer slot]"
    by (simp_all add: s' h2_def placedWithBuffer_def placedOf_append)
  from inv have wf: "wellFormed s"
    and cov: "\<forall>q \<in> set busy0 \<union> set (placedWithBuffer s). covered s q"
    and pd: "pairwiseDisjoint (placedWithBuffer s)"
    and pb: "\<forall>p \<in> set (placedWithBuffer s). \<forall>b \<in> set busy0. \<not> overlaps p b"
    by (simp_all add: nonOverlapInv_def)
  have sh: "0 \<le> SCHEDULING_WORK_DAY_START_HOUR"
    by (simp add: SCHEDULING_WORK_DAY_START_HOUR_def)
  from finder_slot_in_loop(2,3)[OF Placed(1) sh]
  have "end' slot = start slot + duration_minutes st * 60000"
    and free: "\<forall>x \<in> set (busyValues s). \<not> conflicts (start slot)
                 (start slot + (duration_minutes st + SCHEDULING_BUFFER_MINUTES) * 60000) x"
    by simp_all
  then have wb: "withBuffer slot = \<lparr>start = start slot,
       end' = start slot + (duration_minutes st + SCHEDULING_BUFFER_MINUTES) * 60000\<rparr>"
    by (simp add: withBuffer_def algebra_simps)
  have new: "\<not> overlaps q (withBuffer slot)" if "covered s q" for q
    unfolding wb using that free by (rule covered_no_conflict)
  have wf': "wellFormed s'" by (rule wellFormed_after_placed[OF wf h b c])
  have cov': "\<forall>q \<in> set busy0 \<union> set (placedWithBuffer s'). covered s' q"
  proof
    fix q assume q: "q \<in> set busy0 \<union> set (placedWithBuffer s')"
    show "covered s' q"
    proof (cases "q = withBuffer slot")
      case True
      have "\<lparr>start = length (heap s), end' = Suc (length (heap s))\<rparr> \<in> set (busyTimes s')"
        by (simp add: b)
      moreover have "getTime (heap s') (length (heap s)) = start q"
        by (simp add: h getTime_def True withBuffer_def)
      moreover have "end' q \<le> getTime (heap s') (Suc (length (heap s)))"
        by (simp add: h getTime_def True withBuffer_def e_def nth_append)
      ultimately show ?thesis by (force simp: covered_def)
    next
      case False
      with q p cov have "covered s q" by auto
      then show ?thesis
        by (rule covered_after_placed[OF wf _ h]) (auto simp: b)
    qed
  qed
  have pd': "pairwiseDisjoint (placedWithBuffer s')"
    using pd cov new by (simp add: p pairwiseDisjoint_snoc)
  have pb': "\<forall>p \<in> set (placedWithBuffer s'). \<forall>b \<in> set busy0. \<not> overlaps p b"
    using pb cov new by (auto simp: p overlaps_sym)
  from wf' cov' pd' pb' show ?thesis by (simp add: nonOverlapInv_def)
qed

lemma nonOverlapInv_loop:
  "nonOverlapInv busy0 s \<Longrightarrow> schedule_loop C E s subtasks = Some s' \<Longrightarrow> nonOverlapInv busy0 s'"
proof (induction subtasks arbitrary: s)
  case Nil
  then show ?case by simp
next
  case (Cons st subtasks)
  from Cons.prems(2) obtain s1 where s1: "schedule_iteration C E s st = Some s1"
    "schedule_loop C E s1 subtasks = Some s'"
    by (auto split: option.splits)
  from nonOverlapInv_iteration[OF Cons.prems(1) s1(1)] s1(2) show ?case
    by (rule Cons.IH)
qed

lemma allocBusy_spec:
  "allocBusy h bs = (h', rs) \<Longrightarrow>
     (\<exists>vs. h' = h @ vs) \<and>
     (\<forall>r \<in> set rs. start r < length h' \<and> end' r < length h') \<and>
     map (valueOf h') rs = bs"
proof (induction bs arbitrary: h h' rs)
  case Nil
  then show ?case by simp
next
  case (Cons b bs)
  obtain h3 rest where rec: "allocBusy (h @ [start b, end' b]) bs = (h3, rest)"
    by (cases "allocBusy (h @ [start b, end' b]) bs")
  with Cons.prems have eq: "h' = h3" "rs = \<lparr>start = length h, end' = Suc (length h)\<rparr> # rest"
    by (simp_all add: newDate_def)
  from Cons.IH[OF rec] obtain vs where vs: "h3 = (h @ [start b, end' b]) @ vs"
    and refs: "\<forall>r \<in> set rest. start r < length h3 \<and> end' r < length h3"
    and vals: "map (valueOf h3) rest = bs"
    by blast
  from vs have "valueOf h3 \<lparr>start = length h, end' = Suc (length h)\<rparr> = b"
    by (simp add: valueOf_def getTime_def nth_append)
  moreover from vs have "Suc (length h) < length h3" by simp
  moreover from vs have "\<exists>ws. h3 = h @ ws" by simp
  ultimately show ?case using refs vals eq by simp
qed

lemma nonOverlapInv_initial: "nonOverlapInv busy (initial_state t busy w)"
proof -
  obtain h1 rs where a: "allocBusy [] busy = (h1, rs)" by (cases "allocBusy [] busy")
  have s0: "initial_state t busy w =
      \<lparr>heap = h1 @ [t], busyTimes = rs, nextAvailableStartTime = length h1, scheduledCount = 0,
       scheduledEvents = [], unscheduledSubtasks = [], world = w, ledger = []\<rparr>"
    by (simp add: initial_state_def a newDate_def)
  from allocBusy_spec[OF a] have refs: "\<forall>r \<in> set rs. start r < length h1 \<and> end' r < length h1"
    and vals: "map (valueOf h1) rs = busy"
    by simp_all
  have wf: "wellFormed (initial_state t busy w)"
    using refs by (auto simp: s0 wellFormed_def)
  have cov: "covered (initial_state t busy w) q" if "q \<in> set busy" for q
  proof -
    from that vals obtain r where r: "r \<in> set rs" "valueOf h1 r = q" by auto
    with refs have "start r < length h1" "end' r < length h1" by auto
    with r(2) have "getTime (h1 @ [t]) (start r) = start q" "getTime (h1 @ [t]) (end' r) = end' q"
      by (auto simp: valueOf_def getTime_def nth_append)
    with r(1) show ?thesis by (auto simp: covered_def s0)
  qed
  have "placedWithBuffer (initial_state t busy w) = []"
    by (simp add: s0 placedWithBuffer_def)
  with wf cov show ?thesis by (simp add: nonOverlapInv_def)
qed

lemma schedule_loop_returns: "\<exists>s'. schedule_loop C E s subtasks = Some s'"
  using schedule_loop_outcomes[of C E s subtasks] by blast

text \<open>
  C4. Every batch run completes, and in its result the placed slots, each extended by
  the buffer, do not overlap one another (for every two different positions of the
  ledger of placed slots), and none of them overlaps an interval of the initial busy
  snapshot; overlap is the half-open one.
\<close>

theorem placed_slots_never_overlap:
  "\<exists>s'. schedule_tasks createCalendarEvent now busy w subtasks = Some s'
      \<and> (\<forall>i j. i < length (placedWithBuffer s') \<and> j < length (placedWithBuffer s') \<and> i \<noteq> j
             \<longrightarrow> \<not> overlaps (placedWithBuffer s' ! i) (placedWithBuffer s' ! j))
      \<and> (\<forall>p \<in> set (placedWithBuffer s'). \<forall>b \<in> set busy. \<not> overlaps p b)"
proof -
  from schedule_loop_returns obtain s'
    where run: "schedule_loop createCalendarEvent (searchRangeEnd now)
                  (initial_state (searchRangeStart now) busy w) subtasks = Some s'"
    by blast
  from nonOverlapInv_loop[OF nonOverlapInv_initial run]
  have "pairwiseDisjoint (placedWithBuffer s')"
    and "\<forall>p \<in> set (placedWithBuffer s'). \<forall>b \<in> set busy. \<not> overlaps p b"
    by (simp_all add: nonOverlapInv_def)
  with run pairwiseDisjoint_nth[of "placedWithBuffer s'"] show ?thesis
    by (auto simp: schedule_tasks_def)
qed

text \<open>Sunday noon is the current time, Monday 09:00-10:00 is busy, and two tasks of 60
  minutes are placed at 10:00 and 11:15.\<close>

theorem placed_slots_never_overlap_witness:
  "\<exists>s'. schedule_tasks calendarAlwaysCreates (instant 20457 12 0)
          [\<lparr>start = instant 20458 9 0, end' = instant 20458 10 0\<rparr>] 0
          [\<lparr>subtask = ''a'', duration_minutes = 60\<rparr>, \<lparr>subtask = ''b'', duration_minutes = 60\<rparr>]
        = Some s'
      \<and> placedWithBuffer s' = [\<lparr>start = instant 20458 10 0, end' = instant 20458 11 15\<rparr>,
                               \<lparr>start = instant 20458 11 15, end' = instant 20458 12 30\<rparr>]
      \<and> \<not> overlaps \<lparr>start = instant 20458 10 0, end' = instant 20458 11 15\<rparr>
                     \<lparr>start = instant 20458 11 15, end' = instant 20458 12 30\<rparr>
      \<and> \<not> overlaps \<lparr>start = instant 20458 10 0, end' = instant 20458 11 15\<rparr>
                     \<lparr>start = instant 20458 9 0, end' = instant 20458 10 0\<rparr>"
proof -
  from placed_slots_never_overlap[of calendarAlwaysCreates "instant 20457 12 0"
      "[\<lparr>start = instant 20458 9 0, end' = instant 20458 10 0\<rparr>]" 0
      "[\<lparr>subtask = ''a'', duration_minutes = 60\<rparr>, \<lparr>subtask = ''b'', duration_minutes = 60\<rparr>]"]
  obtain s' where run: "schedule_tasks calendarAlwaysCreates (instant 20457 12 0)
          [\<lparr>start = instant 20458 9 0, end' = instant 20458 10 0\<rparr>] 0
          [\<lparr>subtask = ''a'', duration_minutes = 60\<rparr>, \<lparr>subtask = ''b'', duration_minutes = 60\<rparr>]
        = Some s'"
    and pairs: "\<And>i j. i < length (placedWithBuffer s') \<Longrightarrow> j < length (placedWithBuffer s')
                  \<Longrightarrow> i \<noteq> j \<Longrightarrow> \<not> overlaps (placedWithBuffer s' ! i) (placedWithBuffer s' ! j)"
    and busy: "\<And>p. p \<in> set (placedWithBuffer s')
                  \<Longrightarrow> \<not> overlaps p \<lparr>start = instant 20458 9 0, end' = instant 20458 10 0\<rparr>"
    by auto
  have "map_option placedWithBuffer
      (schedule_tasks calendarAlwaysCreates (instant 20457 12 0)
          [\<lparr>start = instant 20458 9 0, end' = instant 20458 10 0\<rparr>] 0
          [\<lparr>subtask = ''a'', duration_minutes = 60\<rparr>, \<lparr>subtask = ''b'', duration_minutes = 60\<rparr>])
      = Some [\<lparr>start = instant 20458 10 0, end' = instant 20458 11 15\<rparr>,
              \<lparr>start = instant 20458 11 15, end' = instant 20458 12 30\<rparr>]"
    by code_simp
  with run have placed: "placedWithBuffer s' = [\<lparr>start = instant 20458 10 0, end' = instant 20458 11 15\<rparr>,
                               \<lparr>start = instant 20458 11 15, end' = instant 20458 12 30\<rparr>]"
    by simp
  from pairs[of 0 1] placed
  have "\<not> overlaps \<lparr>start = instant 20458 10 0, end' = instant 20458 11 15\<rparr>
                     \<lparr>start = instant 20458 11 15, end' = instant 20458 12 30\<rparr>"
    by simp
  moreover from busy[of "\<lparr>start = instant 20458 10 0, end' = instant 20458 11 15\<rparr>"] placed
  have "\<not> overlaps \<lparr>start = instant 20458 10 0, end' = instant 20458 11 15\<rparr>
                     \<lparr>start = instant 20458 9 0, end' = instant 20458 10 0\<rparr>"
    by simp
  ultimately show ?thesis using run placed by blast
qed


end
